theory Spec2Isabelle
  imports Complex_Main "HOL-Library.Product_Lexorder"
begin

section \<open>Data model of telestai-groomer.py\<close>

text \<open>
  Monetary amounts are Python \<open>Decimal\<close> values.  Every finite decimal is a rational
  number and the script only adds, subtracts and compares amounts, so amounts are modelled
  as \<^typ>\<open>rat\<close> (exact arithmetic, no rounding).  Python's unbounded \<open>int\<close> is \<^typ>\<open>int\<close>.
\<close>

type_synonym amount = rat

text \<open>The parsed command line (\<open>args\<close>), lines 17-30.\<close>

record args =
  max_amt_input :: amount
  max_num_tx :: int
  max_amt_per_output :: amount
  fee :: amount
  reuse :: bool
  address :: "string option"
  auto :: bool

text \<open>One entry of the list returned by \<open>b.listunspent\<close>, with the keys the script reads.\<close>

record coin =
  txid :: string
  vout :: int
  scriptPubKey :: string
  amount :: amount
  confirmations :: int

subsection \<open>Insertion-ordered dictionaries\<close>

text \<open>
  A Python \<open>dict\<close> iterates in insertion order and an assignment to an existing key keeps
  the key's position.  It is modelled as an association list with distinct keys:
  \<^term>\<open>map_of\<close> is the lookup, \<open>dict_set\<close> the assignment \<open>d[k] = v\<close>.
\<close>

fun dict_set :: "('k \<times> 'v) list \<Rightarrow> 'k \<Rightarrow> 'v \<Rightarrow> ('k \<times> 'v) list" where
  "dict_set [] k v = [(k, v)]"
| "dict_set ((k', v') # d) k v =
     (if k' = k then (k, v) # d else (k', v') # dict_set d k v)"

section \<open>Grouping the snapshot by script (lines 86-94)\<close>

text \<open>
  The value stored per script is the tuple the source builds: index 0, index 1, index 2.
\<close>

type_synonym group = "int \<times> amount \<times> int"
type_synonym scripts = "(string \<times> group) list"

text \<open>The condition of line 91.\<close>

definition qualifies :: "args \<Rightarrow> coin \<Rightarrow> bool" where
  "qualifies a c \<longleftrightarrow>
     amount c < max_amt_input a \<and> amount c \<ge> 1 / 100 \<and> confirmations c > 100"

text \<open>
  One pass of the body of \<open>for coin in coins\<close> (lines 88-94).  Both assignments take
  their third component from index 0 of the old tuple, as the source does.  The lookup
  after line 90 cannot miss, since the key has just been inserted.
\<close>

definition group_coin :: "args \<Rightarrow> scripts \<Rightarrow> coin \<Rightarrow> scripts" where
  "group_coin a scripts c =
     (let script = scriptPubKey c;
          scripts1 = (if map_of scripts script = None
                      then dict_set scripts script (0, 0, 0) else scripts)
      in case map_of scripts1 script of
           None \<Rightarrow> scripts1
         | Some (s0, s1, s2) \<Rightarrow>
             if qualifies a c
             then dict_set scripts1 script (s0 + 1, s1 + amount c, s0 + 1)
             else dict_set scripts1 script (s0, s1 + amount c, s0 + 1))"

definition group_coins :: "args \<Rightarrow> coin list \<Rightarrow> scripts" where
  "group_coins a coins = foldl (group_coin a) [] coins"

text \<open>Sum of the index-1 fields (total amounts) of all groups.\<close>

definition total_of_groups :: "scripts \<Rightarrow> amount" where
  "total_of_groups scripts = sum_list (map (\<lambda>(k, (s0, s1, s2)). s1) scripts)"

section \<open>Candidate selection (lines 96-121)\<close>

text \<open>
  \<open>max(scripts.items(), key=operator.itemgetter(1))\<close>: the key of an item is its whole
  tuple.  Python compares tuples lexicographically, which is the order of
  \<^typ>\<open>int \<times> amount \<times> int\<close> here, and \<open>max\<close> keeps the first item whose key
  is greatest: the running best is replaced only by a strictly greater key.
\<close>

fun max_item :: "(string \<times> group) \<Rightarrow> (string \<times> group) list \<Rightarrow> string \<times> group" where
  "max_item best [] = best"
| "max_item best (x # xs) = max_item (if snd x > snd best then x else best) xs"

datatype error = NameError | KeyError | ValueError

text \<open>Line 105.  \<open>max\<close> of an empty sequence raises \<open>ValueError\<close>.\<close>

definition most_overused :: "scripts \<Rightarrow> error + string" where
  "most_overused scripts =
     (case scripts of [] \<Rightarrow> Inl ValueError | x # xs \<Rightarrow> Inr (fst (max_item x xs)))"

text \<open>
  Lines 96-114: either the script calls \<open>sys.exit()\<close> after the clean-wallet report
  (\<open>GiveUp\<close>), or it goes on with the chosen script (\<open>Merge\<close>).
\<close>

datatype verdict = GiveUp | Merge string

definition select_script :: "scripts \<Rightarrow> error + verdict" where
  "select_script scripts =
     (if length scripts = 0 then Inr GiveUp
      else case most_overused scripts of
             Inl e \<Rightarrow> Inl e
           | Inr mo \<Rightarrow>
               (case map_of scripts mo of
                  None \<Rightarrow> Inl KeyError
                | Some (s0, s1, s2) \<Rightarrow>
                    if s2 < 3 \<or> s1 < 1 / 100 then Inr GiveUp else Inr (Merge mo)))"

text \<open>Lines 116-121: the chosen script and every script whose index-1 field is dust.\<close>

definition usescripts :: "scripts \<Rightarrow> string \<Rightarrow> string set" where
  "usescripts scripts mo =
     set (mo # map fst (filter (\<lambda>(script, (s0, s1, s2)). s1 < 1 / 10000) scripts))"

section \<open>Input selection (lines 123-133)\<close>

text \<open>A transaction input reference, the dictionary \<open>{'txid': ..., 'vout': ...}\<close>.\<close>

type_synonym txin = "string \<times> int"

fun select_inputs ::
  "args \<Rightarrow> string set \<Rightarrow> coin list \<Rightarrow> amount \<times> txin list \<Rightarrow> amount \<times> txin list" where
  "select_inputs a us [] (amt, txouts) = (amt, txouts)"
| "select_inputs a us (c # cs) (amt, txouts) =
     (if int (length txouts) \<ge> max_num_tx a then (amt, txouts)
      else if scriptPubKey c \<in> us
           then select_inputs a us cs (amt + amount c, txouts @ [(txid c, vout c)])
           else select_inputs a us cs (amt, txouts))"

text \<open>
  The coins that the loop of lines 125-133 turns into inputs, in the words of the
  specification: the outputs whose script is in the working set, in the order met, up to
  the configured maximum count.
\<close>

definition selected_coins :: "args \<Rightarrow> string set \<Rightarrow> coin list \<Rightarrow> coin list" where
  "selected_coins a us coins =
     take (nat (max_num_tx a)) (filter (\<lambda>c. scriptPubKey c \<in> us) coins)"

section \<open>Output splitting (lines 138-155)\<close>

text \<open>
  The variables the loop reads and writes.  \<open>addr\<close> is a module-level name that no line
  before the loop assigns: \<open>None\<close> stands for "not bound", and reading it then raises
  \<open>NameError\<close>.  Once bound it holds an address string, so the test \<open>addr is None\<close> is
  false.  \<open>fresh\<close> counts the calls of \<open>b.getnewaddress\<close> made so far; the wallet is
  taken to answer each call, the \<open>n\<close>-th one with \<open>gna n\<close>.  \<open>paid\<close> is a history
  variable: the pairs of address and amount added at line 154, in order.
\<close>

record split_vars =
  na :: amount
  out :: "(string \<times> amount) list"
  addr :: "string option"
  fresh :: nat
  paid :: "(string \<times> amount) list"

definition split_init :: "amount \<Rightarrow> string option \<Rightarrow> nat \<Rightarrow> split_vars" where
  "split_init n ad k = \<lparr>na = n, out = [], addr = ad, fresh = k, paid = []\<rparr>"

definition chunks :: "split_vars \<Rightarrow> amount list" where
  "chunks s = map snd (paid s)"

text \<open>Lines 143-145.\<close>

definition next_amount :: "args \<Rightarrow> amount \<Rightarrow> amount" where
  "next_amount a n =
     (let amount0 = min (max_amt_per_output a) n
      in if n - amount0 < 10 then n else amount0)"

text \<open>Lines 146-150; the result is the value of \<open>addr\<close> afterwards, with the new state.\<close>

definition choose_addr ::
  "args \<Rightarrow> (nat \<Rightarrow> string) \<Rightarrow> split_vars \<Rightarrow> error + string \<times> split_vars" where
  "choose_addr a gna s =
     (case address a of
        None \<Rightarrow>
          if \<not> reuse a
          then Inr (gna (fresh s), s\<lparr>addr := Some (gna (fresh s)), fresh := Suc (fresh s)\<rparr>)
          else (case addr s of
                  None \<Rightarrow> Inl NameError
                | Some ad \<Rightarrow> Inr (ad, s))
      | Some x \<Rightarrow> Inr (x, s\<lparr>addr := Some x\<rparr>))"

text \<open>Lines 152-154: \<open>out[addr] += amount\<close>, after inserting a zero for a new key.\<close>

definition credit :: "(string \<times> amount) list \<Rightarrow> string \<Rightarrow> amount \<Rightarrow> (string \<times> amount) list" where
  "credit d ad x =
     (let d1 = (if map_of d ad = None then dict_set d ad 0 else d)
      in case map_of d1 ad of None \<Rightarrow> d1 | Some v \<Rightarrow> dict_set d1 ad (v + x))"

text \<open>Lines 151-155.\<close>

definition pay :: "string \<Rightarrow> amount \<Rightarrow> split_vars \<Rightarrow> split_vars" where
  "pay ad x s =
     (let s1 = (if x > 0 then s\<lparr>out := credit (out s) ad x, paid := paid s @ [(ad, x)]\<rparr> else s)
      in s1\<lparr>na := na s1 - x\<rparr>)"

text \<open>
  The loop \<open>while na > 0\<close>.  It need not end (with \<open>max_amt_per_output\<close> at most zero the
  remaining amount never shrinks), so the model takes fuel: each execution of the body
  uses one unit, and \<open>None\<close> means that the fuel ran out before the loop ended.
  \<open>Some (Inl e)\<close> is an exception leaving the loop, \<open>Some (Inr s)\<close> its normal end.
\<close>

fun split_loop ::
  "nat \<Rightarrow> args \<Rightarrow> (nat \<Rightarrow> string) \<Rightarrow> split_vars \<Rightarrow> (error + split_vars) option" where
  "split_loop 0 a gna s = (if na s > 0 then None else Some (Inr s))"
| "split_loop (Suc k) a gna s =
     (if na s > 0
      then let x = next_amount a (na s)
           in case choose_addr a gna s of
                Inl e \<Rightarrow> Some (Inl e)
              | Inr (ad, s1) \<Rightarrow> split_loop k a gna (pay ad x s1)
      else Some (Inr s))"

text \<open>
  Lines 123-155 together: the selected inputs with their total, and the outcome of the
  split of the total less the fee.
\<close>

definition build_plan ::
  "nat \<Rightarrow> args \<Rightarrow> (nat \<Rightarrow> string) \<Rightarrow> string set \<Rightarrow> coin list \<Rightarrow> string option \<Rightarrow> nat \<Rightarrow>
   (amount \<times> txin list \<times> (error + split_vars)) option" where
  "build_plan fuel a gna us coins ad k =
     (case select_inputs a us coins (0, []) of
        (amt, txouts) \<Rightarrow>
          (case split_loop fuel a gna (split_init (amt - fee a) ad k) of
             None \<Rightarrow> None
           | Some r \<Rightarrow> Some (amt, txouts, r)))"

section \<open>The main loop (lines 78-180)\<close>

text \<open>
  The wallet and the user are outside the program.  Each remote call and each prompt is
  an oracle indexed by the number of the main-loop iteration that makes it (the address
  oracle by the number of earlier calls); \<open>None\<close> means that the call raised.
\<close>

record world =
  listunspent :: "nat \<Rightarrow> coin list option"
  getnewaddress :: "nat \<Rightarrow> string"
  createrawtransaction :: "nat \<Rightarrow> string option"
  signrawtransaction :: "nat \<Rightarrow> string option"
  sendrawtransaction :: "nat \<Rightarrow> string option"
  answer_sign :: "nat \<Rightarrow> string"
  answer_send :: "nat \<Rightarrow> string"

text \<open>
  What the loop prints, one constructor per \<open>print\<close> call.  The per-script lines of
  lines 135-136 iterate over a Python set, whose order the program does not fix; they are
  left out.
\<close>

datatype msg =
    ErrFetchUnspent
  | AlreadyClean
  | TransactionsSent "string list"
  | WalletCleaned
  | CreatingTx nat amount
  | Paying amount amount
  | PayLine string amount
  | BytesFee nat amount
  | TransactionSent string
  | ErrTransaction

record state =
  transactions :: "string list"
  addr_var :: "string option"
  newaddress_calls :: nat
  printed :: "msg list"
  iter :: nat

definition init_state :: state where
  "init_state = \<lparr>transactions = [], addr_var = None, newaddress_calls = 0,
                 printed = [], iter = 0\<rparr>"

definition say :: "msg list \<Rightarrow> state \<Rightarrow> state" where
  "say ms st = st\<lparr>printed := printed st @ ms\<rparr>"

text \<open>The report printed before \<open>sys.exit()\<close> at lines 97-101 and again at 109-113.\<close>

definition report_clean :: "state \<Rightarrow> state" where
  "report_clean st =
     (if length (transactions st) = 0 then say [AlreadyClean] st
      else say [TransactionsSent (transactions st), WalletCleaned] st)"

datatype outcome = Exited state | Crashed error state | Loop state

definition declined :: "string \<Rightarrow> bool" where
  "declined ans \<longleftrightarrow> ans = ''n'' \<or> ans = ''N''"

text \<open>
  Lines 156-180.  An exception of a remote call inside the \<open>try\<close> is caught, reported and
  followed by \<open>sys.exit()\<close>.
\<close>

definition broadcast ::
  "args \<Rightarrow> world \<Rightarrow> state \<Rightarrow> txin list \<Rightarrow> amount \<Rightarrow> (string \<times> amount) list \<Rightarrow> outcome" where
  "broadcast a w st txouts amt d =
     (let total = sum_list (map snd d);
          st1 = say (Paying total (amt - total) # map (\<lambda>(o', v). PayLine o' v) d) st
      in case createrawtransaction w (iter st) of
           None \<Rightarrow> Exited (say [ErrTransaction] st1)
         | Some txn \<Rightarrow>
             if \<not> auto a \<and> declined (answer_sign w (iter st)) then Exited st1
             else (case signrawtransaction w (iter st) of
                     None \<Rightarrow> Exited (say [ErrTransaction] st1)
                   | Some hex \<Rightarrow>
                       let st2 = say [BytesFee (length hex div 2) (amt - total)] st1
                       in if \<not> auto a \<and> declined (answer_send w (iter st)) then Exited st2
                          else (case sendrawtransaction w (iter st) of
                                  None \<Rightarrow> Exited (say [ErrTransaction] st2)
                                | Some tx \<Rightarrow>
                                    Loop (say [TransactionSent tx]
                                      (st2\<lparr>transactions := transactions st2 @ [tx],
                                           iter := Suc (iter st2)\<rparr>)))))"

text \<open>
  One pass of the body of \<open>while True\<close>.  \<open>fuel\<close> bounds the inner split loop; \<open>None\<close>
  means that the split loop did not end within it.
\<close>

definition iteration :: "nat \<Rightarrow> args \<Rightarrow> world \<Rightarrow> state \<Rightarrow> outcome option" where
  "iteration fuel a w st =
     (case listunspent w (iter st) of
        None \<Rightarrow> Some (Exited (say [ErrFetchUnspent] st))
      | Some coins \<Rightarrow>
          let scripts = group_coins a coins
          in case select_script scripts of
               Inl e \<Rightarrow> Some (Crashed e st)
             | Inr GiveUp \<Rightarrow> Some (Exited (report_clean st))
             | Inr (Merge mo) \<Rightarrow>
                 (case build_plan fuel a (getnewaddress w) (usescripts scripts mo) coins
                         (addr_var st) (newaddress_calls st) of
                    None \<Rightarrow> None
                  | Some (amt, txouts, r) \<Rightarrow>
                      let st1 = say [CreatingTx (length txouts) amt] st
                      in case r of
                           Inl e \<Rightarrow> Some (Crashed e st1)
                         | Inr s \<Rightarrow>
                             Some (broadcast a w
                                     (st1\<lparr>addr_var := addr s, newaddress_calls := fresh s\<rparr>)
                                     txouts amt (out s))))"

text \<open>
  The loop \<open>while True\<close>: \<open>run sf k\<close> performs at most \<open>k\<close> passes, each with fuel \<open>sf\<close> for
  its split loop, and returns how the program ended, if it did within these bounds.
\<close>

fun run :: "nat \<Rightarrow> nat \<Rightarrow> args \<Rightarrow> world \<Rightarrow> state \<Rightarrow> outcome option" where
  "run sf 0 a w st = None"
| "run sf (Suc k) a w st =
     (case iteration sf a w st of
        None \<Rightarrow> None
      | Some (Loop st') \<Rightarrow> run sf k a w st'
      | Some r \<Rightarrow> Some r)"


section \<open>Reference notions of the specification\<close>

text \<open>
  The aggregates of the data model, written directly over the snapshot: for a script, the
  number of its qualifying outputs, the sum of the amounts of all its outputs, and the
  number of all its outputs; and the scripts in the order in which the snapshot first
  shows them.
\<close>

definition qualifying_count :: "args \<Rightarrow> coin list \<Rightarrow> string \<Rightarrow> int" where
  "qualifying_count a coins k =
     int (length (filter (\<lambda>c. scriptPubKey c = k \<and> qualifies a c) coins))"

definition total_amount :: "coin list \<Rightarrow> string \<Rightarrow> amount" where
  "total_amount coins k = sum_list (map amount (filter (\<lambda>c. scriptPubKey c = k) coins))"

definition output_count :: "coin list \<Rightarrow> string \<Rightarrow> int" where
  "output_count coins k = int (length (filter (\<lambda>c. scriptPubKey c = k) coins))"

definition first_seen :: "coin list \<Rightarrow> string list" where
  "first_seen coins = rev (remdups (rev (map scriptPubKey coins)))"

section \<open>Concrete inputs used in examples\<close>

text \<open>The defaults that \<open>argparse\<close> gives every option (lines 17-28).\<close>

definition default_args :: args where
  "default_args = \<lparr>max_amt_input = 25, max_num_tx = 500, max_amt_per_output = 10000,
     fee = 1, reuse = False, address = None, auto = False\<rparr>"

text \<open>A wallet that hands out pairwise different addresses.\<close>

definition fresh_addr :: "nat \<Rightarrow> string" where
  "fresh_addr n = ''T'' @ replicate n (CHR ''x'')"

text \<open>Three small, well confirmed outputs of one script.\<close>

definition small_coins :: "coin list" where
  "small_coins =
     [\<lparr>txid = ''a'', vout = 0, scriptPubKey = ''S1'', amount = 5, confirmations = 200\<rparr>,
      \<lparr>txid = ''b'', vout = 1, scriptPubKey = ''S1'', amount = 5, confirmations = 200\<rparr>,
      \<lparr>txid = ''c'', vout = 0, scriptPubKey = ''S1'', amount = 5, confirmations = 200\<rparr>]"

text \<open>Two scripts with one qualifying output each, the second with the larger amount.\<close>

definition tie_coins :: "coin list" where
  "tie_coins =
     [\<lparr>txid = ''a'', vout = 0, scriptPubKey = ''S1'', amount = 1, confirmations = 200\<rparr>,
      \<lparr>txid = ''b'', vout = 0, scriptPubKey = ''S2'', amount = 2, confirmations = 200\<rparr>]"

text \<open>Three outputs of one script, the first too large to qualify under the defaults.\<close>

definition mixed_coins :: "coin list" where
  "mixed_coins =
     [\<lparr>txid = ''a'', vout = 0, scriptPubKey = ''S1'', amount = 50, confirmations = 200\<rparr>,
      \<lparr>txid = ''b'', vout = 0, scriptPubKey = ''S1'', amount = 5, confirmations = 200\<rparr>,
      \<lparr>txid = ''c'', vout = 0, scriptPubKey = ''S1'', amount = 5, confirmations = 200\<rparr>]"

text \<open>
  A wallet whose transaction calls all succeed and whose user confirms every prompt;
  \<open>lu\<close> gives the answers of \<open>listunspent\<close>.
\<close>

definition wallet :: "(nat \<Rightarrow> coin list option) \<Rightarrow> world" where
  "wallet lu = \<lparr>listunspent = lu, getnewaddress = fresh_addr,
     createrawtransaction = (\<lambda>i. Some ''00''), signrawtransaction = (\<lambda>i. Some ''beef''),
     sendrawtransaction = (\<lambda>i. Some (''tx'' @ replicate i (CHR ''+''))),
     answer_sign = (\<lambda>i. ''y''), answer_send = (\<lambda>i. ''y'')\<rparr>"

section \<open>Properties of the grouping pass\<close>

lemma map_of_dict_set:
  "map_of (dict_set d k v) k' = (if k' = k then Some v else map_of d k')"
  by (induction d) auto

lemma total_dict_set_new:
  "map_of d k = None \<Longrightarrow>
   total_of_groups (dict_set d k (s0, s1, s2)) = total_of_groups d + s1"
  by (induction d) (auto simp: total_of_groups_def split: if_splits)

lemma total_dict_set_old:
  "map_of d k = Some (o0, o1, o2) \<Longrightarrow>
   total_of_groups (dict_set d k (s0, s1, s2)) = total_of_groups d - o1 + s1"
  by (induction d) (auto simp: total_of_groups_def split: if_splits)

lemma total_group_coin:
  "total_of_groups (group_coin a scripts c) = total_of_groups scripts + amount c"
proof (cases "map_of scripts (scriptPubKey c)")
  case None
  then show ?thesis
    by (simp add: group_coin_def Let_def map_of_dict_set total_dict_set_new
        total_dict_set_old [where ?o1.0 = 0])
next
  case (Some g)
  then show ?thesis
    by (cases g) (simp add: group_coin_def Let_def total_dict_set_old)
qed

lemma total_foldl_group_coin:
  "total_of_groups (foldl (group_coin a) scripts coins) =
   total_of_groups scripts + sum_list (map amount coins)"
  by (induction coins arbitrary: scripts) (simp_all add: total_group_coin)

text \<open>
  C6: for every list of unspent outputs, the total-amount fields of the groups built by
  the grouping pass add up to the sum of the amounts of all outputs in the list.
\<close>

theorem grouping_preserves_total:
  "total_of_groups (group_coins a coins) = sum_list (map amount coins)"
proof -
  have "total_of_groups ([] :: scripts) = 0"
    by (simp add: total_of_groups_def)
  then show ?thesis
    by (simp add: group_coins_def total_foldl_group_coin)
qed

section \<open>Properties of the split loop\<close>

lemma sum_snd_dict_set:
  fixes d :: "('k \<times> rat) list"
  shows "sum_list (map snd (dict_set d k v)) =
   sum_list (map snd d) - (case map_of d k of None \<Rightarrow> 0 | Some v' \<Rightarrow> v') + v"
  by (induction d) auto

lemma sum_snd_credit:
  "sum_list (map snd (credit d ad x)) = sum_list (map snd d) + x"
  by (cases "map_of d ad") (simp_all add: credit_def Let_def sum_snd_dict_set map_of_dict_set)

lemma split_loop_done: "\<not> 0 < na s \<Longrightarrow> split_loop k a gna s = Some (Inr s)"
  by (cases k) simp_all

text \<open>Fuel only bounds the number of passes: a result, once reached, stays with more fuel.\<close>

lemma split_loop_more_fuel:
  "split_loop k a gna s = Some r \<Longrightarrow> split_loop (k + j) a gna s = Some r"
proof (induction k arbitrary: s)
  case 0
  then show ?case by (simp add: split_loop_done split: if_splits)
next
  case (Suc k)
  show ?case
  proof (cases "0 < na s")
    case False
    then show ?thesis using Suc.prems by (simp add: split_loop_done)
  next
    case True
    show ?thesis
    proof (cases "choose_addr a gna s")
      case (Inl e)
      then show ?thesis using Suc.prems True by (simp add: Let_def)
    next
      case (Inr p)
      obtain ad s1 where p: "p = (ad, s1)" by (cases p)
      have "split_loop k a gna (pay ad (next_amount a (na s)) s1) = Some r"
        using Suc.prems True Inr p by (simp add: Let_def)
      from Suc.IH [OF this] show ?thesis
        using True Inr p by (simp add: Let_def)
    qed
  qed
qed

lemma choose_addr_ok:
  assumes "address a \<noteq> None \<or> \<not> reuse a"
  shows "\<exists>ad s1. choose_addr a gna s = Inr (ad, s1) \<and> na s1 = na s \<and> out s1 = out s \<and> paid s1 = paid s"
  using assms by (auto simp: choose_addr_def split: option.splits)

lemma choose_addr_keeps:
  "choose_addr a gna s = Inr (ad, s1) \<Longrightarrow> na s1 = na s \<and> out s1 = out s \<and> paid s1 = paid s"
  by (auto simp: choose_addr_def split: option.splits if_splits)

lemma next_amount_cases:
  "next_amount a n = n \<and> n - max_amt_per_output a < 10 \<or>
   next_amount a n = max_amt_per_output a \<and> max_amt_per_output a < n \<and> 10 \<le> n - max_amt_per_output a"
  by (auto simp: next_amount_def Let_def min_def)

lemma pay_pos:
  "0 < x \<Longrightarrow> na (pay ad x s) = na s - x \<and> paid (pay ad x s) = paid s @ [(ad, x)] \<and>
     sum_list (map snd (out (pay ad x s))) = sum_list (map snd (out s)) + x"
  by (simp add: pay_def Let_def sum_snd_credit)

lemma split_loop_total:
  assumes m: "0 < max_amt_per_output a" and mode: "address a \<noteq> None \<or> \<not> reuse a"
  shows "0 < na s \<Longrightarrow> na s \<le> of_nat k * max_amt_per_output a \<Longrightarrow>
    \<exists>s' cs. split_loop k a gna s = Some (Inr s') \<and> na s' = 0 \<and> chunks s' = chunks s @ cs \<and> cs \<noteq> [] \<and> sum_list cs = na s
      \<and> (\<forall>c \<in> set (butlast cs). c = max_amt_per_output a) \<and> last cs - max_amt_per_output a < 10 \<and> 0 < last cs
      \<and> sum_list (map snd (out s')) = sum_list (map snd (out s)) + na s"
proof (induction k arbitrary: s)
  case 0
  then show ?case by simp
next
  case (Suc k)
  let ?m = "max_amt_per_output a"
  obtain ad s1 where c: "choose_addr a gna s = Inr (ad, s1)"
    and k1: "na s1 = na s" "out s1 = out s" "paid s1 = paid s"
    using choose_addr_ok [OF mode] by blast
  let ?x = "next_amount a (na s)"
  let ?s2 = "pay ad ?x s1"
  have step: "split_loop (Suc k) a gna s = split_loop k a gna ?s2"
    using Suc.prems(1) c by (simp add: Let_def)
  from next_amount_cases [of a "na s"] show ?case
  proof (elim disjE conjE)
    assume x: "?x = na s" and b: "na s - ?m < 10"
    have p: "na ?s2 = 0" "paid ?s2 = paid s @ [(ad, na s)]"
      "sum_list (map snd (out ?s2)) = sum_list (map snd (out s)) + na s"
      using pay_pos [of "na s" ad s1] Suc.prems(1) x k1 by simp_all
    have "split_loop (Suc k) a gna s = Some (Inr ?s2)"
      using step p(1) by (simp add: split_loop_done)
    moreover have "chunks ?s2 = chunks s @ [na s]"
      using p(2) by (simp add: chunks_def)
    ultimately show ?thesis
      using p b Suc.prems(1) by (intro exI [of _ ?s2] exI [of _ "[na s]"]) simp
  next
    assume x: "?x = ?m" and lt: "?m < na s" and ge: "10 \<le> na s - ?m"
    have p: "na ?s2 = na s - ?m" "paid ?s2 = paid s @ [(ad, ?m)]"
      "sum_list (map snd (out ?s2)) = sum_list (map snd (out s)) + ?m"
      using pay_pos [of ?m ad s1] m x k1 by simp_all
    have pos: "0 < na ?s2" using p(1) ge by simp
    have "na s - ?m \<le> of_nat k * ?m"
      using Suc.prems(2) by (simp add: algebra_simps)
    then have le: "na ?s2 \<le> of_nat k * ?m" using p(1) by simp
    from Suc.IH [OF pos le] obtain s' cs where
      r: "split_loop k a gna ?s2 = Some (Inr s')" "na s' = 0" "chunks s' = chunks ?s2 @ cs"
        "cs \<noteq> []" "sum_list cs = na ?s2" "\<forall>c \<in> set (butlast cs). c = ?m"
        "last cs - ?m < 10" "0 < last cs"
        "sum_list (map snd (out s')) = sum_list (map snd (out ?s2)) + na ?s2"
      by blast
    have "chunks s' = chunks s @ (?m # cs)"
      using r(3) p(2) by (simp add: chunks_def)
    then show ?thesis
      using r p step by (intro exI [of _ s'] exI [of _ "?m # cs"]) simp
  qed
qed


lemma fuel_enough:
  fixes N m :: rat
  assumes "0 < N" "0 < m"
  shows "N \<le> of_nat (nat \<lceil>N / m\<rceil> + 1) * m"
proof -
  have "N / m \<le> of_int \<lceil>N / m\<rceil>" by (rule le_of_int_ceiling)
  moreover have "0 < N / m" using assms by simp
  then have "0 \<le> \<lceil>N / m\<rceil>" by (simp add: zero_le_ceiling)
  ultimately have "N / m \<le> of_nat (nat \<lceil>N / m\<rceil>)" by simp
  then have "N \<le> of_nat (nat \<lceil>N / m\<rceil>) * m"
    using assms(2) by (simp add: pos_divide_le_eq)
  also have "\<dots> \<le> of_nat (nat \<lceil>N / m\<rceil> + 1) * m"
    using assms(2) by (simp add: algebra_simps)
  finally show ?thesis .
qed

text \<open>
  The split in the two address modes in which line 147 can be evaluated (an explicit
  address, or no reuse): for every positive payable amount \<open>N\<close> and every positive
  \<open>max_amt_per_output\<close> the loop ends normally within
  \<open>ceil (N / max_amt_per_output) + 1\<close> executions of its body, the chunks it added to the
  payout mapping sum exactly to \<open>N\<close>, and each chunk is at most \<open>max_amt_per_output\<close>,
  except possibly the last one, which then exceeds it by a remainder smaller than 10.
\<close>

theorem split_loop_chunks:
  assumes "0 < N" and "0 < max_amt_per_output a" and "address a \<noteq> None \<or> \<not> reuse a"
  shows "\<exists>s'. split_loop (nat \<lceil>N / max_amt_per_output a\<rceil> + 1) a gna (split_init N ad n)
                 = Some (Inr s')
            \<and> sum_list (chunks s') = N
            \<and> sum_list (map snd (out s')) = N
            \<and> (\<forall>i < length (chunks s').
                  chunks s' ! i \<le> max_amt_per_output a
                  \<or> (Suc i = length (chunks s') \<and> chunks s' ! i - max_amt_per_output a < 10))"
proof -
  let ?m = "max_amt_per_output a"
  let ?s = "split_init N ad n"
  define k where "k = nat \<lceil>N / ?m\<rceil> + 1"
  have s0: "na ?s = N" "chunks ?s = []" "out ?s = []"
    by (simp_all add: split_init_def chunks_def)
  have "0 < na ?s" "na ?s \<le> of_nat k * ?m"
    unfolding k_def s0 using assms(1) fuel_enough [OF assms(1,2)] by simp_all
  from split_loop_total [OF assms(2,3) this, where gna = gna] obtain s' cs where
    r: "split_loop k a gna ?s = Some (Inr s')" "chunks s' = cs" "cs \<noteq> []"
       "sum_list cs = N" "\<forall>c \<in> set (butlast cs). c = ?m" "last cs - ?m < 10"
       "sum_list (map snd (out s')) = N"
    unfolding s0 by auto
  have "cs ! i \<le> ?m \<or> (Suc i = length cs \<and> cs ! i - ?m < 10)" if "i < length cs" for i
  proof (cases "Suc i = length cs")
    case True
    then have "length cs - 1 = i" by simp
    then have "cs ! i = last cs" using r(3) last_conv_nth [of cs] by simp
    then show ?thesis using True r(6) by simp
  next
    case False
    then have "i < length (butlast cs)" using that by simp
    then have "butlast cs ! i \<in> set (butlast cs)" by (rule nth_mem)
    moreover have "butlast cs ! i = cs ! i" using \<open>i < length (butlast cs)\<close> by (rule nth_butlast)
    ultimately show ?thesis using r(5) by auto
  qed
  then show ?thesis using r unfolding k_def by auto
qed

theorem split_loop_chunks_witness:
  "(0::rat) < 25 \<and> 0 < max_amt_per_output (default_args\<lparr>max_amt_per_output := 10\<rparr>)
   \<and> \<not> reuse (default_args\<lparr>max_amt_per_output := 10\<rparr>)
   \<and> (\<exists>s'. split_loop (nat \<lceil>25 / max_amt_per_output (default_args\<lparr>max_amt_per_output := 10\<rparr>)\<rceil> + 1)
                 (default_args\<lparr>max_amt_per_output := 10\<rparr>) fresh_addr (split_init 25 None 0)
                 = Some (Inr s')
            \<and> sum_list (chunks s') = 25
            \<and> sum_list (map snd (out s')) = 25
            \<and> (\<forall>i < length (chunks s').
                  chunks s' ! i \<le> max_amt_per_output (default_args\<lparr>max_amt_per_output := 10\<rparr>)
                  \<or> (Suc i = length (chunks s')
                      \<and> chunks s' ! i - max_amt_per_output (default_args\<lparr>max_amt_per_output := 10\<rparr>) < 10)))"
proof -
  let ?a = "default_args\<lparr>max_amt_per_output := 10\<rparr>"
  have h1: "(0::rat) < 25" by simp
  have h2: "0 < max_amt_per_output ?a" by simp
  have h3: "\<not> reuse ?a" by (simp add: default_args_def)
  show ?thesis
    by (intro conjI h1 h2 h3 split_loop_chunks [OF h1 h2 disjI2 [OF h3]])
qed

text \<open>
  In the same two address modes, payable amount 25 and \<open>max_amt_per_output = 10\<close> give
  two executions of the body and exactly the chunk sequence \<open>[10, 15]\<close>.
\<close>

theorem split_25_by_10:
  assumes "max_amt_per_output a = 10" and "address a \<noteq> None \<or> \<not> reuse a" and "2 \<le> k"
  shows "\<exists>s'. split_loop k a gna (split_init 25 ad n) = Some (Inr s') \<and> chunks s' = [10, 15]"
proof -
  define j where "j = k - 2"
  have k: "k = Suc (Suc j)"
    using assms(3) by (simp add: j_def)
  have n1: "next_amount a 25 = 10" "next_amount a 15 = 15"
    using assms(1) by (simp_all add: next_amount_def)
  let ?s = "split_init 25 ad n"
  obtain ad1 s1 where c1: "choose_addr a gna ?s = Inr (ad1, s1)"
    and k1: "na s1 = 25" "paid s1 = []"
    using choose_addr_ok [OF assms(2), of gna ?s] by (auto simp: split_init_def)
  let ?s2 = "pay ad1 10 s1"
  have p2: "na ?s2 = 15" "paid ?s2 = [(ad1, 10)]"
    using pay_pos [of 10 ad1 s1] k1 by simp_all
  obtain ad2 s3 where c2: "choose_addr a gna ?s2 = Inr (ad2, s3)"
    and k3: "na s3 = 15" "paid s3 = [(ad1, 10)]"
    using choose_addr_ok [OF assms(2), of gna ?s2] p2 by auto
  let ?s4 = "pay ad2 15 s3"
  have p4: "na ?s4 = 0" "paid ?s4 = [(ad1, 10), (ad2, 15)]"
    using pay_pos [of 15 ad2 s3] k3 by simp_all
  have "split_loop k a gna ?s = split_loop (Suc j) a gna ?s2"
    unfolding k using c1 n1 by (simp add: split_init_def)
  also have "\<dots> = split_loop j a gna ?s4"
    using c2 n1 p2 by simp
  also have "\<dots> = Some (Inr ?s4)"
    using p4 by (simp add: split_loop_done)
  finally show ?thesis using p4 by (simp add: chunks_def)
qed

theorem split_25_by_10_witness:
  "max_amt_per_output (default_args\<lparr>max_amt_per_output := 10\<rparr>) = 10
   \<and> \<not> reuse (default_args\<lparr>max_amt_per_output := 10\<rparr>)
   \<and> (2::nat) \<le> 2
   \<and> (\<exists>s'. split_loop 2 (default_args\<lparr>max_amt_per_output := 10\<rparr>) fresh_addr (split_init 25 None 0)
               = Some (Inr s') \<and> chunks s' = [10, 15])"
proof -
  let ?a = "default_args\<lparr>max_amt_per_output := 10\<rparr>"
  have h1: "max_amt_per_output ?a = 10" by simp
  have h2: "\<not> reuse ?a" by (simp add: default_args_def)
  have h3: "(2::nat) \<le> 2" by simp
  show ?thesis
    by (intro conjI h1 h2 h3 split_25_by_10 [OF h1 disjI2 [OF h2] h3])
qed


section \<open>Properties of a consolidation plan\<close>

lemma select_inputs_eq:
  "select_inputs a us coins (amt0, tx0) =
     (amt0 + sum_list (map amount
               (take (nat (max_num_tx a - int (length tx0))) (filter (\<lambda>c. scriptPubKey c \<in> us) coins))),
      tx0 @ map (\<lambda>c. (txid c, vout c))
               (take (nat (max_num_tx a - int (length tx0))) (filter (\<lambda>c. scriptPubKey c \<in> us) coins)))"
proof (induction coins arbitrary: amt0 tx0)
  case Nil
  then show ?case by simp
next
  case (Cons c cs)
  show ?case
  proof (cases "int (length tx0) \<ge> max_num_tx a")
    case True
    then show ?thesis by simp
  next
    case False
    then obtain j where j: "nat (max_num_tx a - int (length tx0)) = Suc j"
      and j': "nat (max_num_tx a - int (length (tx0 @ [(txid c, vout c)]))) = j"
      by (cases "nat (max_num_tx a - int (length tx0))") auto
    show ?thesis
      using False Cons.IH [of "amt0 + amount c" "tx0 @ [(txid c, vout c)]"] Cons.IH [of amt0 tx0] j j'
      by (simp add: algebra_simps)
  qed
qed

lemma select_inputs_selected:
  "select_inputs a us coins (0, []) =
     (sum_list (map amount (selected_coins a us coins)),
      map (\<lambda>c. (txid c, vout c)) (selected_coins a us coins))"
  by (simp add: select_inputs_eq selected_coins_def)

lemma next_amount_stuck:
  "max_amt_per_output a \<le> 0 \<Longrightarrow> 0 < n \<Longrightarrow> 10 \<le> n - max_amt_per_output a \<Longrightarrow>
   next_amount a n = max_amt_per_output a"
  by (simp add: next_amount_def Let_def min_def)

lemma pay_nonpos:
  "x \<le> 0 \<Longrightarrow> na (pay ad x s) = na s - x \<and> out (pay ad x s) = out s \<and> paid (pay ad x s) = paid s"
  by (simp add: pay_def Let_def)

lemma split_loop_stuck:
  assumes m: "max_amt_per_output a \<le> 0"
  shows "0 < na s \<Longrightarrow> 10 \<le> na s - max_amt_per_output a \<Longrightarrow>
         split_loop k a gna s \<noteq> Some (Inr s')"
proof (induction k arbitrary: s)
  case 0
  then show ?case by simp
next
  case (Suc k)
  let ?m = "max_amt_per_output a"
  show ?case
  proof (cases "choose_addr a gna s")
    case (Inl e)
    then show ?thesis using Suc.prems by (simp add: Let_def)
  next
    case (Inr p)
    obtain ad s1 where p: "p = (ad, s1)" by (cases p)
    have k1: "na s1 = na s"
      using choose_addr_keeps Inr p by blast
    have x: "next_amount a (na s) = ?m"
      using next_amount_stuck [OF m Suc.prems] .
    let ?s2 = "pay ad ?m s1"
    have n2: "na ?s2 = na s - ?m" using pay_nonpos [OF m, of ad s1] k1 by simp
    have "0 < na ?s2" "10 \<le> na ?s2 - ?m"
      using n2 Suc.prems m by simp_all
    from Suc.IH [OF this] have "split_loop k a gna ?s2 \<noteq> Some (Inr s')" .
    then show ?thesis using Suc.prems(1) Inr p x by (simp add: Let_def)
  qed
qed

lemma split_loop_sum:
  "split_loop k a gna s = Some (Inr s') \<Longrightarrow> 0 < na s \<Longrightarrow>
   sum_list (map snd (out s')) = sum_list (map snd (out s)) + na s"
proof (induction k arbitrary: s)
  case 0
  then show ?case by simp
next
  case (Suc k)
  let ?m = "max_amt_per_output a"
  show ?case
  proof (cases "choose_addr a gna s")
    case (Inl e)
    then show ?thesis using Suc.prems by (simp add: Let_def)
  next
    case (Inr p)
    obtain ad s1 where p: "p = (ad, s1)" by (cases p)
    have k1: "na s1 = na s" "out s1 = out s"
      using choose_addr_keeps Inr p by blast+
    let ?x = "next_amount a (na s)"
    let ?s2 = "pay ad ?x s1"
    have step: "split_loop k a gna ?s2 = Some (Inr s')"
      using Suc.prems Inr p by (simp add: Let_def)
    from next_amount_cases [of a "na s"] show ?thesis
    proof (elim disjE conjE)
      assume x: "?x = na s"
      have p2: "na ?s2 = 0" "sum_list (map snd (out ?s2)) = sum_list (map snd (out s)) + na s"
        using pay_pos [of "na s" ad s1] Suc.prems(2) x k1 by simp_all
      then have "s' = ?s2" using step by (simp add: split_loop_done)
      then show ?thesis using p2 by simp
    next
      assume x: "?x = ?m" and lt: "?m < na s" and ge: "10 \<le> na s - ?m"
      show ?thesis
      proof (cases "0 < ?m")
        case True
        have p2: "na ?s2 = na s - ?m"
          "sum_list (map snd (out ?s2)) = sum_list (map snd (out s)) + ?m"
          using pay_pos [of ?m ad s1] True x k1 by simp_all
        have "0 < na ?s2" using p2 ge by simp
        from Suc.IH [OF step this] show ?thesis using p2 by simp
      next
        case False
        then have "?m \<le> 0" by simp
        from split_loop_stuck [OF this Suc.prems(2) ge] show ?thesis
          using Suc.prems(1) by blast
      qed
    qed
  qed
qed

text \<open>
  C2: for every consolidation plan that an iteration builds (the split loop ended
  normally) from selected inputs whose total exceeds the fee, the payout amounts of the
  address-to-amount mapping plus the fee equal the total of the selected inputs exactly;
  that total is the sum of the amounts of the selected outputs.  No assumption on
  \<open>max_amt_per_output\<close> is needed: when it is not positive the loop either ends with
  one chunk or never ends.
\<close>

theorem plan_balances:
  assumes "build_plan fuel a gna us coins ad n = Some (amt, txouts, Inr s)" and "fee a < amt"
  shows "sum_list (map snd (out s)) + fee a = amt
       \<and> amt = sum_list (map amount (selected_coins a us coins))
       \<and> txouts = map (\<lambda>c. (txid c, vout c)) (selected_coins a us coins)"
proof -
  have sel: "amt = sum_list (map amount (selected_coins a us coins))"
    "txouts = map (\<lambda>c. (txid c, vout c)) (selected_coins a us coins)"
    and run: "split_loop fuel a gna (split_init (amt - fee a) ad n) = Some (Inr s)"
    using assms(1) by (auto simp: build_plan_def select_inputs_selected split: option.splits)
  have "sum_list (map snd (out s)) = amt - fee a"
    using split_loop_sum [OF run] assms(2) by (simp add: split_init_def)
  then show ?thesis using sel by simp
qed



theorem plan_balances_witness:
  "build_plan 1 default_args fresh_addr {''S1''} small_coins None 0
     = Some (15, [(''a'', 0), (''b'', 1), (''c'', 0)],
             Inr \<lparr>na = 0, out = [(''T'', 14)], addr = Some ''T'', fresh = 1, paid = [(''T'', 14)]\<rparr>)
   \<and> fee default_args < 15
   \<and> sum_list (map snd (out \<lparr>na = 0, out = [(''T'', 14)], addr = Some ''T'', fresh = 1,
                             paid = [(''T'', 14)]\<rparr>)) + fee default_args = 15
   \<and> (15::rat) = sum_list (map amount (selected_coins default_args {''S1''} small_coins))
   \<and> [(''a'', 0), (''b'', 1), (''c'', 0)]
       = map (\<lambda>c. (txid c, vout c)) (selected_coins default_args {''S1''} small_coins)"
proof -
  have h1: "build_plan 1 default_args fresh_addr {''S1''} small_coins None 0
     = Some (15, [(''a'', 0), (''b'', 1), (''c'', 0)],
             Inr \<lparr>na = 0, out = [(''T'', 14)], addr = Some ''T'', fresh = 1, paid = [(''T'', 14)]\<rparr>)"
    by (simp add: build_plan_def default_args_def small_coins_def split_init_def next_amount_def
        choose_addr_def pay_def credit_def fresh_addr_def)
  have h2: "fee default_args < 15" by (simp add: default_args_def)
  show ?thesis
    by (intro conjI h1 h2 plan_balances [OF h1 h2, THEN conjunct1]
        plan_balances [OF h1 h2, THEN conjunct2, THEN conjunct1]
        plan_balances [OF h1 h2, THEN conjunct2, THEN conjunct2])
qed

lemma choose_addr_explicit:
  "address a = Some x \<Longrightarrow> choose_addr a gna s = Inr (x, s\<lparr>addr := Some x\<rparr>)"
  by (simp add: choose_addr_def)

lemma credit_single:
  "credit [] x v = [(x, v)]" "credit [(x, u)] x v = [(x, u + v)]"
  by (simp_all add: credit_def)

lemma pay_single:
  "out s = [] \<or> (\<exists>v. out s = [(x, v)]) \<Longrightarrow>
   out (pay x v' s) = [] \<or> (\<exists>v. out (pay x v' s) = [(x, v)])"
  by (auto simp: pay_def Let_def credit_single)

lemma split_loop_single_key:
  assumes "address a = Some x"
  shows "split_loop k a gna s = Some r \<Longrightarrow> out s = [] \<or> (\<exists>v. out s = [(x, v)]) \<Longrightarrow>
         \<exists>s'. r = Inr s' \<and> (out s' = [] \<or> (\<exists>v. out s' = [(x, v)]))"
proof (induction k arbitrary: s)
  case 0
  then show ?case by (auto split: if_splits)
next
  case (Suc k)
  show ?case
  proof (cases "0 < na s")
    case True
    let ?s2 = "pay x (next_amount a (na s)) (s\<lparr>addr := Some x\<rparr>)"
    have "split_loop k a gna ?s2 = Some r"
      using Suc.prems(1) True choose_addr_explicit [OF assms] by (simp add: Let_def)
    moreover have "out ?s2 = [] \<or> (\<exists>v. out ?s2 = [(x, v)])"
      using Suc.prems(2) by (intro pay_single) simp
    ultimately show ?thesis by (rule Suc.IH)
  next
    case False
    then show ?thesis using Suc.prems by auto
  qed
qed

text \<open>
  C8: with an explicit destination address configured and a positive payable amount, every
  plan that the iteration builds has a payout mapping with exactly one key, the configured
  address, whose value is the total of the inputs less the fee; the split never raises,
  and with a positive \<open>max_amt_per_output\<close> a plan is built.
\<close>

theorem explicit_address_single_payout:
  assumes "address a = Some x"
    and "select_inputs a us coins (0, []) = (amt, txouts)"
    and "fee a < amt"
  shows "(\<forall>fuel p. build_plan fuel a gna us coins ad n = Some p \<longrightarrow>
            (\<exists>s. p = (amt, txouts, Inr s) \<and> out s = [(x, amt - fee a)]))
       \<and> (0 < max_amt_per_output a \<longrightarrow> (\<exists>fuel p. build_plan fuel a gna us coins ad n = Some p))"
proof (intro conjI allI impI)
  fix fuel p
  assume bp: "build_plan fuel a gna us coins ad n = Some p"
  let ?s0 = "split_init (amt - fee a) ad n"
  obtain r where r: "split_loop fuel a gna ?s0 = Some r" and p: "p = (amt, txouts, r)"
    using bp assms(2) by (auto simp: build_plan_def split: option.splits)
  have "out ?s0 = [] \<or> (\<exists>v. out ?s0 = [(x, v)])" by (simp add: split_init_def)
  from split_loop_single_key [OF assms(1) r this] obtain s where
    s: "r = Inr s" "out s = [] \<or> (\<exists>v. out s = [(x, v)])" by blast
  have "sum_list (map snd (out s)) = amt - fee a"
    using split_loop_sum [of fuel a gna ?s0 s] r s(1) assms(3) by (simp add: split_init_def)
  then have "out s = [(x, amt - fee a)]"
    using s(2) assms(3) by auto
  then show "\<exists>s. p = (amt, txouts, Inr s) \<and> out s = [(x, amt - fee a)]"
    using p s(1) by simp
next
  assume m: "0 < max_amt_per_output a"
  have mode: "address a \<noteq> None \<or> \<not> reuse a" using assms(1) by simp
  define k where "k = nat \<lceil>(amt - fee a) / max_amt_per_output a\<rceil> + 1"
  let ?s0 = "split_init (amt - fee a) ad n"
  have "0 < na ?s0" "na ?s0 \<le> of_nat k * max_amt_per_output a"
    unfolding k_def using assms(3) fuel_enough [of "amt - fee a" "max_amt_per_output a"] m
    by (simp_all add: split_init_def)
  from split_loop_total [OF m mode this, where gna = gna]
  obtain s' where "split_loop k a gna ?s0 = Some (Inr s')" by blast
  then have "build_plan k a gna us coins ad n = Some (amt, txouts, Inr s')"
    using assms(2) by (simp add: build_plan_def)
  then show "\<exists>fuel p. build_plan fuel a gna us coins ad n = Some p" by blast
qed

theorem explicit_address_single_payout_witness:
  "address (default_args\<lparr>address := Some ''D''\<rparr>) = Some ''D''
   \<and> select_inputs (default_args\<lparr>address := Some ''D''\<rparr>) {''S1''} small_coins (0, [])
       = (15, [(''a'', 0), (''b'', 1), (''c'', 0)])
   \<and> fee (default_args\<lparr>address := Some ''D''\<rparr>) < 15
   \<and> 0 < max_amt_per_output (default_args\<lparr>address := Some ''D''\<rparr>)
   \<and> (\<exists>fuel s. build_plan fuel (default_args\<lparr>address := Some ''D''\<rparr>) fresh_addr {''S1''}
                   small_coins None 0
                 = Some (15, [(''a'', 0), (''b'', 1), (''c'', 0)], Inr s)
               \<and> out s = [(''D'', 14)])"
proof -
  let ?a = "default_args\<lparr>address := Some ''D''\<rparr>"
  have h1: "address ?a = Some ''D''" by simp
  have h2: "select_inputs ?a {''S1''} small_coins (0, []) = (15, [(''a'', 0), (''b'', 1), (''c'', 0)])"
    by (simp add: default_args_def small_coins_def)
  have h3: "fee ?a < 15" by (simp add: default_args_def)
  have h4: "0 < max_amt_per_output ?a" by (simp add: default_args_def)
  have f: "15 - fee ?a = 14" by (simp add: default_args_def)
  note t = explicit_address_single_payout [OF h1 h2 h3, where gna = fresh_addr and ad = None and n = 0]
  from t h4 obtain fuel p where
    bp: "build_plan fuel ?a fresh_addr {''S1''} small_coins None 0 = Some p" by blast
  with t obtain s where "p = (15, [(''a'', 0), (''b'', 1), (''c'', 0)], Inr s)"
    "out s = [(''D'', 15 - fee ?a)]" by blast
  then have "\<exists>fuel s. build_plan fuel ?a fresh_addr {''S1''} small_coins None 0
                 = Some (15, [(''a'', 0), (''b'', 1), (''c'', 0)], Inr s)
               \<and> out s = [(''D'', 14)]"
    using bp f by auto
  then show ?thesis using h1 h2 h3 h4 by blast
qed

text \<open>
  C10: with reuse mode enabled and no explicit destination address, the first execution
  of the body of the split loop in the first iteration of the main loop, where \<open>addr\<close>
  has never been assigned, raises \<open>NameError\<close> at the test \<open>addr is None\<close> instead of
  producing a payout mapping, for every positive payable amount.
\<close>

theorem reuse_without_address_raises:
  assumes "reuse a" and "address a = None" and "0 < N"
  shows "split_loop (Suc k) a gna (split_init N (addr_var init_state) n) = Some (Inl NameError)"
  using assms by (simp add: split_init_def init_state_def choose_addr_def Let_def)


theorem reuse_without_address_raises_witness:
  "reuse (default_args\<lparr>reuse := True\<rparr>) \<and> address (default_args\<lparr>reuse := True\<rparr>) = None
   \<and> (0::rat) < 14
   \<and> split_loop (Suc 0) (default_args\<lparr>reuse := True\<rparr>) fresh_addr
         (split_init 14 (addr_var init_state) 0) = Some (Inl NameError)"
proof -
  let ?a = "default_args\<lparr>reuse := True\<rparr>"
  have h1: "reuse ?a" by simp
  have h2: "address ?a = None" by (simp add: default_args_def)
  have h3: "(0::rat) < 14" by simp
  show ?thesis
    by (intro conjI h1 h2 h3 reuse_without_address_raises [OF h1 h2 h3])
qed

section \<open>Properties of the candidate selection\<close>

lemma max_item_first_max:
  "\<exists>pre post. best # xs = pre @ max_item best xs # post
      \<and> (\<forall>y \<in> set pre. snd y < snd (max_item best xs))
      \<and> (\<forall>z \<in> set post. snd z \<le> snd (max_item best xs))"
proof (induction xs arbitrary: best)
  case Nil
  have "[best] = [] @ max_item best [] # []" by simp
  then show ?case by (intro exI [of _ "[]"]) simp
next
  case (Cons x xs)
  define b where "b = (if snd x > snd best then x else best)"
  define r where "r = max_item b xs"
  from Cons.IH [of b] obtain pre post where
    d: "b # xs = pre @ r # post" and
    l: "\<forall>y \<in> set pre. snd y < snd r" and u: "\<forall>z \<in> set post. snd z \<le> snd r"
    unfolding r_def by blast
  have res: "max_item best (x # xs) = r" by (simp add: r_def b_def)
  have ge: "snd b \<le> snd r"
  proof (cases pre)
    case Nil
    then have "b = r" using d by simp
    then show ?thesis by simp
  next
    case (Cons p ps)
    then have "b \<in> set pre" using d by simp
    then show ?thesis using l by (simp add: less_imp_le)
  qed
  show ?case
  proof (cases "snd x > snd best")
    case True
    then have b: "b = x" by (simp add: b_def)
    have "best # x # xs = (best # pre) @ r # post" using d b by simp
    moreover have "\<forall>y \<in> set (best # pre). snd y < snd r"
      using l True ge b by auto
    ultimately show ?thesis unfolding res using u by blast
  next
    case False
    then have b: "b = best" by (simp add: b_def)
    have xle: "snd x \<le> snd best" using False by simp
    show ?thesis
    proof (cases pre)
      case Nil
      then have rb: "r = best" and "post = xs" using d b by simp_all
      then have "best # x # xs = [] @ r # (x # post)" by simp
      moreover have "\<forall>z \<in> set (x # post). snd z \<le> snd r"
        using u xle rb by simp
      ultimately show ?thesis unfolding res
        by (intro exI [of _ "[]"] exI [of _ "x # post"]) simp
    next
      case (Cons p ps)
      then have pb: "p = best" and xs: "xs = ps @ r # post" using d b by simp_all
      have "snd best < snd r" using l Cons pb by simp
      then have xr: "snd x < snd r" using xle by simp
      have "best # x # xs = (best # x # ps) @ r # post" using xs by simp
      moreover have "\<forall>y \<in> set (best # x # ps). snd y < snd r"
        using l Cons pb xr by simp
      ultimately show ?thesis unfolding res using u by blast
    qed
  qed
qed


lemma keys_dict_set:
  "map fst (dict_set d k v) = (if k \<in> fst ` set d then map fst d else map fst d @ [k])"
  by (induction d) (auto simp: rev_image_eqI)

lemma key_in_dict_set: "k \<in> fst ` set (dict_set d k v)"
proof -
  have "k \<in> set (map fst (dict_set d k v))"
    unfolding keys_dict_set by simp
  then show ?thesis by simp
qed

lemma keys_group_coin:
  "map fst (group_coin a scripts c) =
     (if scriptPubKey c \<in> fst ` set scripts then map fst scripts
      else map fst scripts @ [scriptPubKey c])"
proof (cases "map_of scripts (scriptPubKey c)")
  case None
  then have "scriptPubKey c \<notin> fst ` set scripts" by (simp add: map_of_eq_None_iff)
  then show ?thesis using None
    by (simp add: group_coin_def Let_def map_of_dict_set keys_dict_set key_in_dict_set)
next
  case (Some g)
  then have "scriptPubKey c \<in> fst ` set scripts"
    using map_of_eq_None_iff [of scripts "scriptPubKey c"] by simp
  then show ?thesis using Some
    by (cases g) (simp add: group_coin_def Let_def keys_dict_set)
qed

lemma map_of_group_coin:
  "map_of (group_coin a scripts c) k =
     (if k = scriptPubKey c
      then (case (case map_of scripts k of None \<Rightarrow> (0, 0, 0) | Some g \<Rightarrow> g) of
              (s0, s1, s2) \<Rightarrow>
                Some (if qualifies a c then (s0 + 1, s1 + amount c, s0 + 1)
                      else (s0, s1 + amount c, s0 + 1)))
      else map_of scripts k)"
proof (cases "map_of scripts (scriptPubKey c)")
  case None
  then show ?thesis
    by (simp add: group_coin_def Let_def map_of_dict_set)
next
  case (Some g)
  then show ?thesis
    by (cases g) (simp add: group_coin_def Let_def map_of_dict_set)
qed

lemma group_coins_snoc:
  "group_coins a (coins @ [c]) = group_coin a (group_coins a coins) c"
  by (simp add: group_coins_def)

lemma keys_group_coins: "map fst (group_coins a coins) = first_seen coins"
proof (induction coins rule: rev_induct)
  case Nil
  show ?case by (simp add: group_coins_def first_seen_def)
next
  case (snoc c coins)
  have "set (map fst (group_coins a coins)) = set (first_seen coins)"
    using snoc.IH by simp
  then have "fst ` set (group_coins a coins) = scriptPubKey ` set coins"
    by (simp add: first_seen_def)
  then show ?case
    using snoc.IH by (simp add: group_coins_snoc keys_group_coin first_seen_def)
qed

lemma filter_absent:
  assumes "k \<notin> scriptPubKey ` set coins"
  shows "filter (\<lambda>c. scriptPubKey c = k) coins = []"
    and "filter (\<lambda>c. scriptPubKey c = k \<and> qualifies a c) coins = []"
  using assms by (auto simp: filter_empty_conv)

lemma fields_group_coins:
  "map_of (group_coins a coins) k =
     (if k \<in> scriptPubKey ` set coins
      then Some (qualifying_count a coins k, total_amount coins k,
                 qualifying_count a coins k
                 + (if qualifies a (last (filter (\<lambda>c. scriptPubKey c = k) coins)) then 0 else 1))
      else None)"
proof (induction coins rule: rev_induct)
  case Nil
  show ?case by (simp add: group_coins_def)
next
  case (snoc c coins)
  show ?case
  proof (cases "k = scriptPubKey c")
    case False
    then show ?thesis
      using snoc.IH
      by (simp add: group_coins_snoc map_of_group_coin qualifying_count_def total_amount_def)
  next
    case True
    show ?thesis
    proof (cases "k \<in> scriptPubKey ` set coins")
      case False
      then show ?thesis
        using snoc.IH True filter_absent [OF False]
        by (simp add: group_coins_snoc map_of_group_coin qualifying_count_def total_amount_def)
    next
      case in_coins: True
      then show ?thesis
        using snoc.IH True
        by (simp add: group_coins_snoc map_of_group_coin qualifying_count_def total_amount_def)
    qed
  qed
qed


lemma group_less_iff:
  fixes q q' n n' :: int and t t' :: amount
  shows "(q', t', n') < (q, t, n) \<longleftrightarrow> q' < q \<or> (q' = q \<and> (t' < t \<or> (t' = t \<and> n' < n)))"
    and "(q', t', n') \<le> (q, t, n) \<longleftrightarrow> q' < q \<or> (q' = q \<and> (t' < t \<or> (t' = t \<and> n' \<le> n)))"
  by auto

lemma first_seen_distinct: "distinct (first_seen coins)"
  by (simp add: first_seen_def)

lemma first_seen_set: "set (first_seen coins) = scriptPubKey ` set coins"
  by (simp add: first_seen_def)

text \<open>
  C4, as the code has it: for every non-empty snapshot the chosen script has the greatest
  qualifying count.  Among the scripts, taken in first-seen order, every earlier one has
  a strictly smaller tuple and every later one a tuple that is not greater, in the
  lexicographic order of (qualifying count, total amount, index-2 field): a tie on the
  qualifying count goes to the greater total amount, then to the greater index-2 field,
  and only among equal tuples to the script seen first.
\<close>

theorem most_overused_lexicographic:
  assumes "coins \<noteq> []"
  shows "\<exists>mo q t n pre post.
      most_overused (group_coins a coins) = Inr mo
    \<and> group_coins a coins = pre @ (mo, (q, t, n)) # post
    \<and> map fst (group_coins a coins) = first_seen coins
    \<and> q = qualifying_count a coins mo \<and> t = total_amount coins mo
    \<and> (\<forall>c \<in> set coins. qualifying_count a coins (scriptPubKey c) \<le> q)
    \<and> (\<forall>(k, (q', t', n')) \<in> set pre. q' < q \<or> (q' = q \<and> (t' < t \<or> (t' = t \<and> n' < n))))
    \<and> (\<forall>(k, (q', t', n')) \<in> set post. q' < q \<or> (q' = q \<and> (t' < t \<or> (t' = t \<and> n' \<le> n))))"
proof -
  define scripts where "scripts = group_coins a coins"
  have keys: "map fst scripts = first_seen coins"
    by (simp add: scripts_def keys_group_coins)
  have "set (first_seen coins) \<noteq> {}" using assms by (simp add: first_seen_set)
  then have "scripts \<noteq> []" using keys by auto
  then obtain x xs where sx: "scripts = x # xs" by (cases scripts) auto
  define r where "r = max_item x xs"
  obtain mo q t n where r: "r = (mo, (q, t, n))" by (cases r) auto
  have mo: "most_overused scripts = Inr mo"
    by (simp add: most_overused_def sx r_def [symmetric] r)
  from max_item_first_max [of x xs] obtain pre post where
    d: "scripts = pre @ (mo, (q, t, n)) # post" and
    l: "\<forall>y \<in> set pre. snd y < (q, t, n)" and u: "\<forall>z \<in> set post. snd z \<le> (q, t, n)"
    unfolding r_def [symmetric] r sx by auto
  have dist: "distinct (map fst scripts)" using keys first_seen_distinct by simp
  have "(mo, (q, t, n)) \<in> set scripts" using d by simp
  then have "map_of scripts mo = Some (q, t, n)" using dist by simp
  then have qt: "q = qualifying_count a coins mo" "t = total_amount coins mo"
    unfolding scripts_def fields_group_coins by (simp_all split: if_splits)
  have top: "qualifying_count a coins (scriptPubKey c) \<le> q" if c: "c \<in> set coins" for c
  proof -
    let ?k = "scriptPubKey c"
    obtain g where g: "map_of scripts ?k = Some g" "fst g = qualifying_count a coins ?k"
      unfolding scripts_def fields_group_coins using c by simp
    then have "(?k, g) \<in> set scripts" by (simp add: map_of_SomeD)
    then have "(?k, g) \<in> set pre \<or> g = (q, t, n) \<or> (?k, g) \<in> set post"
      using d by auto
    then have "g \<le> (q, t, n)"
      using l u by (auto simp: less_imp_le simp del: less_eq_prod_simp less_prod_simp)
    then have "fst g \<le> q" by (cases g) auto
    then show ?thesis using g(2) by simp
  qed
  have l': "\<forall>(k, (q', t', n')) \<in> set pre. q' < q \<or> (q' = q \<and> (t' < t \<or> (t' = t \<and> n' < n)))"
    using l by (auto simp: group_less_iff)
  have u': "\<forall>(k, (q', t', n')) \<in> set post. q' < q \<or> (q' = q \<and> (t' < t \<or> (t' = t \<and> n' \<le> n)))"
    using u by (auto simp: group_less_iff)
  show ?thesis
    using mo d keys qt top l' u' unfolding scripts_def by blast
qed



theorem most_overused_lexicographic_witness:
  "tie_coins \<noteq> []
   \<and> (\<exists>mo q t n pre post.
      most_overused (group_coins default_args tie_coins) = Inr mo
    \<and> group_coins default_args tie_coins = pre @ (mo, (q, t, n)) # post
    \<and> map fst (group_coins default_args tie_coins) = first_seen tie_coins
    \<and> q = qualifying_count default_args tie_coins mo \<and> t = total_amount tie_coins mo
    \<and> (\<forall>c \<in> set tie_coins. qualifying_count default_args tie_coins (scriptPubKey c) \<le> q)
    \<and> (\<forall>(k, (q', t', n')) \<in> set pre. q' < q \<or> (q' = q \<and> (t' < t \<or> (t' = t \<and> n' < n))))
    \<and> (\<forall>(k, (q', t', n')) \<in> set post. q' < q \<or> (q' = q \<and> (t' < t \<or> (t' = t \<and> n' \<le> n)))))"
proof -
  have h: "tie_coins \<noteq> []" by (simp add: tie_coins_def)
  show ?thesis
    by (intro conjI h most_overused_lexicographic [OF h])
qed

section \<open>The program on concrete inputs\<close>

lemmas eval_defs = group_coins_def group_coin_def qualifies_def most_overused_def select_script_def
  usescripts_def build_plan_def split_init_def next_amount_def choose_addr_def credit_def pay_def
  broadcast_def iteration_def say_def report_clean_def declined_def init_state_def
  default_args_def fresh_addr_def wallet_def Let_def

text \<open>
  C4 as stated fails: \<open>S1\<close> is seen first and ties with \<open>S2\<close> on the qualifying
  count, yet \<open>S2\<close>, whose total amount is larger, is chosen.
\<close>

theorem tie_broken_by_amount:
  "most_overused (group_coins default_args tie_coins) = Inr ''S2''
   \<and> first_seen tie_coins = [''S1'', ''S2'']
   \<and> qualifying_count default_args tie_coins ''S1'' = 1
   \<and> qualifying_count default_args tie_coins ''S2'' = 1"
  by (simp add: eval_defs tie_coins_def first_seen_def qualifying_count_def)

text \<open>
  C3: a snapshot with three outputs of one script, 60 in total.  The index-2 field of its
  group is 2, not the number of outputs, so the loop stops with the clean-wallet report;
  on the same outputs in reverse order the field is 3 and the loop goes on.
\<close>

theorem stops_with_three_outputs:
  "select_script (group_coins default_args mixed_coins) = Inr GiveUp
   \<and> group_coins default_args mixed_coins = [(''S1'', (2, 60, 2))]
   \<and> output_count mixed_coins ''S1'' = 3
   \<and> total_amount mixed_coins ''S1'' = 60
   \<and> select_script (group_coins default_args (rev mixed_coins)) = Inr (Merge ''S1'')"
  by (simp add: eval_defs mixed_coins_def output_count_def total_amount_def)

text \<open>
  C7: with reuse mode and no explicit address the first iteration of the main loop ends in
  \<open>NameError\<close>; no address has been requested from the wallet and no payout is made.
\<close>

theorem reuse_run_crashes:
  "run (Suc 0) (Suc 0) (default_args\<lparr>reuse := True\<rparr>) (wallet (\<lambda>i. Some small_coins)) init_state
     = Some (Crashed NameError
         \<lparr>transactions = [], addr_var = None, newaddress_calls = 0,
          printed = [CreatingTx 3 15], iter = 0\<rparr>)"
  by (simp add: eval_defs small_coins_def)

text \<open>
  Two runs that broadcast one transaction in their first pass.  When the second call of
  \<open>listunspent\<close> fails, the last line printed is the error; the summary of sent
  transactions is printed only by the clean-wallet exit of the second run.
\<close>

theorem fetch_failure_reports_no_transactions:
  "run (Suc 0) (Suc (Suc 0)) (default_args\<lparr>auto := True\<rparr>)
       (wallet (\<lambda>i. if i = 0 then Some small_coins else None)) init_state
     = Some (Exited
         \<lparr>transactions = [''tx''], addr_var = Some ''T'', newaddress_calls = 1,
          printed = [CreatingTx 3 15, Paying 14 1, PayLine ''T'' 14, BytesFee 2 1,
                     TransactionSent ''tx'', ErrFetchUnspent],
          iter = 1\<rparr>)
   \<and> run (Suc 0) (Suc (Suc 0)) (default_args\<lparr>auto := True\<rparr>)
       (wallet (\<lambda>i. if i = 0 then Some small_coins else Some [])) init_state
     = Some (Exited
         \<lparr>transactions = [''tx''], addr_var = Some ''T'', newaddress_calls = 1,
          printed = [CreatingTx 3 15, Paying 14 1, PayLine ''T'' 14, BytesFee 2 1,
                     TransactionSent ''tx'', TransactionsSent [''tx''], WalletCleaned],
          iter = 1\<rparr>)"
  by (simp add: eval_defs small_coins_def)

text \<open>
  C1: with reuse mode, no explicit address, the positive payable amount 14 and the default,
  positive \<open>max_amt_per_output\<close>, the split loop run for the claimed number of passes
  ends in \<open>NameError\<close> on its first pass: no chunk is added to the payout mapping.
\<close>

theorem reuse_split_adds_no_chunk:
  "split_loop (nat \<lceil>14 / max_amt_per_output (default_args\<lparr>reuse := True\<rparr>)\<rceil> + 1)
     (default_args\<lparr>reuse := True\<rparr>) fresh_addr (split_init 14 (addr_var init_state) 0)
   = Some (Inl NameError)"
  by (simp add: default_args_def split_init_def init_state_def choose_addr_def)

text \<open>
  C5: with reuse mode and no explicit address, payable amount 25 and
  \<open>max_amt_per_output = 10\<close> give \<open>NameError\<close> instead of the chunk sequence
  \<open>[10, 15]\<close>.
\<close>

theorem reuse_split_25_by_10_raises:
  "split_loop 2 (default_args\<lparr>max_amt_per_output := 10, reuse := True\<rparr>) fresh_addr
     (split_init 25 (addr_var init_state) 0)
   = Some (Inl NameError)"
  by (simp add: default_args_def split_init_def init_state_def choose_addr_def numeral_2_eq_2)

section \<open>Aborting on a failed snapshot query\<close>

lemma say_fields:
  "transactions (say ms st) = transactions st" "printed (say ms st) = printed st @ ms"
  "iter (say ms st) = iter st"
  by (simp_all add: say_def)

lemma report_clean_fields:
  "transactions (report_clean st) = transactions st" "iter (report_clean st) = iter st"
  "set (printed st) \<subseteq> set (printed (report_clean st))"
  by (auto simp: report_clean_def say_def)

lemma broadcast_not_crashed: "broadcast a w st txouts amt d \<noteq> Crashed e st'"
  by (simp add: broadcast_def Let_def split: option.splits)

lemma broadcast_exited:
  "broadcast a w st txouts amt d = Exited st' \<Longrightarrow>
   transactions st' = transactions st \<and> iter st' = iter st \<and> set (printed st) \<subseteq> set (printed st')"
  by (auto simp: broadcast_def say_def Let_def split: option.splits if_splits)



lemma iteration_exited:
  assumes "iteration fuel a w st = Some (Exited st')"
  shows "(listunspent w (iter st) = None \<and> st' = say [ErrFetchUnspent] st)
       \<or> (listunspent w (iter st) \<noteq> None \<and> iter st' = iter st)"
proof (cases "listunspent w (iter st)")
  case None
  then show ?thesis using assms by (simp add: iteration_def)
next
  case (Some coins)
  have "iter st' = iter st"
    using assms Some
    by (auto simp: iteration_def Let_def say_fields report_clean_fields
        split: sum.splits verdict.splits option.splits dest!: broadcast_exited)
  then show ?thesis using Some by simp
qed







end
